theory Spec2Isabelle
  imports Main
begin

section \<open>Values\<close>

text \<open>
  An element of the buffer has the TypeScript type \<open>D | undefined\<close>; \<open>notNil\<close> of
  \<open>util.ts\<close> also tests for \<open>null\<close>, so both absent values are kept apart from a
  value of \<open>D\<close>.
\<close>

datatype 'd item = Undefined | Null | Item 'd

definition notNil :: "'d item \<Rightarrow> bool" where
  "notNil v = (v \<noteq> Null \<and> v \<noteq> Undefined)"

text \<open>
  The remainder operator \<open>%\<close> of JavaScript on integers: the result has the sign of the
  dividend, and a zero divisor gives \<open>NaN\<close> (here \<open>None\<close>).
\<close>

definition js_rem :: "int \<Rightarrow> int \<Rightarrow> int option" where
  "js_rem a b = (if b = 0 then None else Some (sgn a * (\<bar>a\<bar> mod \<bar>b\<bar>)))"

text \<open>
  A number is a double. The model keeps the integers among them (a page is an integer) and
  writes out where the arithmetic of doubles leaves that of the integers: \<open>x + 1\<close> is exact
  from \<open>-2^53\<close> up to the result \<open>2^53\<close>; outside, the sum lies halfway between two
  doubles up to the magnitude \<open>2^54\<close>, where it is rounded to the one with the even
  significand, and beyond that it is rounded back to \<open>x\<close>. This is \<open>page++\<close>.
\<close>

definition js_incr :: "int \<Rightarrow> int" where
  "js_incr x =
     (if - 9007199254740992 \<le> x \<and> x < 9007199254740992 then x + 1
      else if \<bar>x\<bar> \<le> 18014398509481984 \<and> odd (\<bar>x\<bar> div 2) then x + 2
      else x)"

text \<open>
  \<open>Array.from({ length: n }, () => undefined)\<close>: \<open>n\<close> times \<open>undefined\<close>, none
  for a negative \<open>n\<close>, and a \<open>RangeError\<close> (here \<open>None\<close>) for a length above
  \<open>2^32 - 1\<close>.
\<close>

definition array_from :: "int \<Rightarrow> 'd item list option" where
  "array_from n = (if 4294967295 < n then None else Some (replicate (nat n) Undefined))"

section \<open>useScrolling\<close>

text \<open>
  A reset payload is an object: a finite map from property names to values. A value is a
  number or anything else. The object literal \<open>{ page, size, ...params }\<close> first writes
  the two properties \<open>page\<close> and \<open>size\<close> and then copies every own property of
  \<open>params\<close> over the result. (A payload that is not an object spreads as the map of
  its own enumerable properties: the empty map for a number, \<open>null\<close> or
  \<open>undefined\<close>.)
\<close>

datatype 'v jsval = Num int | Val 'v

type_synonym 'v obj = "string \<rightharpoonup> 'v jsval"

definition descriptor :: "int \<Rightarrow> int \<Rightarrow> 'v obj \<Rightarrow> 'v obj" where
  "descriptor pg sz params = [''page'' \<mapsto> Num pg, ''size'' \<mapsto> Num sz] ++ params"

text \<open>
  The two inputs of \<open>combineLatest\<close>. The value carried by \<open>scroll$\<close> is never read
  (\<open>map(([params]) => ...)\<close>), so the event has no argument.
\<close>

datatype 'v input = Reset "'v obj" | Scroll

text \<open>
  The state of one subscription: the closure variable \<open>page\<close>, and what
  \<open>combineLatest\<close> remembers of each input (the latest value of \<open>reset$\<close>, and whether
  \<open>scroll$\<close> has produced a value).
\<close>

record 'v tracker =
  page_var :: int
  latest_reset :: "'v obj option"
  has_scroll :: bool

definition tracker_init :: "int \<Rightarrow> 'v tracker" where
  "tracker_init startPage =
     \<lparr>page_var = startPage, latest_reset = None, has_scroll = False\<rparr>"

text \<open>
  One input event. A reset first runs \<open>tap(() => (page = startPage))\<close>. Then
  \<open>combineLatest\<close> emits if both inputs have a value; the emission goes through
  \<open>map\<close>, which builds the descriptor from the current \<open>page\<close>, and through
  \<open>tap(() => page++)\<close>.
\<close>

definition combined :: "int \<Rightarrow> 'v tracker \<Rightarrow> 'v tracker \<times> 'v obj list" where
  "combined sz t =
     (case latest_reset t of
        None \<Rightarrow> (t, [])
      | Some params \<Rightarrow>
          if has_scroll t
          then (t\<lparr>page_var := js_incr (page_var t)\<rparr>, [descriptor (page_var t) sz params])
          else (t, []))"

fun useScrolling_step ::
  "int \<Rightarrow> int \<Rightarrow> 'v input \<Rightarrow> 'v tracker \<Rightarrow> 'v tracker \<times> 'v obj list" where
  "useScrolling_step sz startPage (Reset params) t =
     combined sz (t\<lparr>page_var := startPage, latest_reset := Some params\<rparr>)"
| "useScrolling_step sz startPage Scroll t =
     combined sz (t\<lparr>has_scroll := True\<rparr>)"

text \<open>
  A run over a list of input events, from a given state: the final state and the
  descriptors emitted, in order.
\<close>

fun track :: "int \<Rightarrow> int \<Rightarrow> 'v input list \<Rightarrow> 'v tracker \<Rightarrow> 'v tracker \<times> 'v obj list" where
  "track sz startPage [] t = (t, [])"
| "track sz startPage (e # es) t =
     (let r1 = useScrolling_step sz startPage e t;
          r2 = track sz startPage es (fst r1)
      in (fst r2, snd r1 @ snd r2))"

definition emitted_from :: "int \<Rightarrow> int \<Rightarrow> 'v input list \<Rightarrow> 'v tracker \<Rightarrow> 'v obj list" where
  "emitted_from sz startPage evs t = snd (track sz startPage evs t)"

definition useScrolling :: "int \<Rightarrow> int \<Rightarrow> 'v input list \<Rightarrow> 'v obj list" where
  "useScrolling sz startPage evs = emitted_from sz startPage evs (tracker_init startPage)"

section \<open>switchLoadMore\<close>

text \<open>
  Modelled from the spec: the interface \<open>Pagination\<close> of \<open>./models\<close>, which is
  not among the sources. It has the two numeric fields \<open>page\<close> and \<open>size\<close>
  (\<open>useScrolling\<close> fills them from its parameters of type \<open>number\<close>). A request
  descriptor has the type \<open>T & Pagination\<close>: these two fields and whatever \<open>T\<close>
  adds (the extension of the record).
\<close>

record pagination =
  page :: int
  size_p :: int

text \<open>
  The closure variables \<open>defaultItems\<close>, \<open>data\<close> and \<open>prevPage\<close> (\<open>None\<close> is
  \<open>Infinity\<close>), and the state of \<open>switchMap\<close>: its counter \<open>index\<close> of inner
  observables, the inner observable it is subscribed to (\<open>inner\<close>, by its index),
  whether the source has completed (\<open>isComplete\<close>) and whether the output has
  completed or failed (\<open>closed\<close>).
\<close>

record 'd engine =
  defaultItems :: "'d item list"
  data :: "'d item list"
  prevPage :: "int option"
  index :: nat
  inner :: "nat option"
  isComplete :: bool
  closed :: bool

definition engine_init :: "'d engine" where
  "engine_init =
     \<lparr>defaultItems = [], data = [], prevPage = None, index = 0, inner = None,
      isComplete = False, closed = False\<rparr>"

text \<open>
  What a call of \<open>loadMoreFn\<close> does: it throws, or it returns an observable. The
  function is a parameter of the model. It need not be pure: it is given the number of
  the calls made before, and the descriptor.
\<close>

datatype call = Throws | Returns

text \<open>
  What reaches the operator: a descriptor from the source, a notification of the
  observable that a call of \<open>loadMoreFn\<close> returned, named by the index of the call (a
  page, an error, completion), or the end of the source.
\<close>

datatype ('a, 'd) event =
    Desc "'a pagination_scheme"
  | FetchNext nat "'d item list"
  | FetchError nat
  | FetchComplete nat
  | SourceError
  | SourceComplete

text \<open>The comparison \<open>p.page <= prevPage\<close>, with \<open>prevPage\<close> possibly \<open>Infinity\<close>.\<close>

definition page_le :: "int \<Rightarrow> int option \<Rightarrow> bool" where
  "page_le pg prev = (case prev of None \<Rightarrow> True | Some q \<Rightarrow> pg \<le> q)"

text \<open>
  The first \<open>tap\<close>. When \<open>Array.from\<close> throws, nothing has been assigned yet
  and the callback is left: the result is \<open>None\<close>.
\<close>

definition tap_epoch ::
  "bool \<Rightarrow> 'a pagination_scheme \<Rightarrow> 'd engine \<Rightarrow> 'd engine option" where
  "tap_epoch usePadNil p s =
     (if page_le (page p) (prevPage s)
      then
        (case (if usePadNil \<and> size_p p \<noteq> 0 then array_from (size_p p) else Some []) of
           None \<Rightarrow> None
         | Some items \<Rightarrow>
             Some (s\<lparr>defaultItems := items, data := items, prevPage := Some (page p)\<rparr>))
      else Some (s\<lparr>prevPage := Some (page p)\<rparr>))"

text \<open>The predicate of \<open>filter\<close>: \<open>!!p.size && data.length % p.size === 0\<close>.\<close>

definition admit :: "'a pagination_scheme \<Rightarrow> 'd engine \<Rightarrow> bool" where
  "admit p s = (size_p p \<noteq> 0 \<and> js_rem (int (length (data s))) (size_p p) = Some 0)"

text \<open>\<open>checkComplete\<close> of \<open>switchMap\<close>.\<close>

definition checkComplete :: "'d engine \<Rightarrow> 'd engine" where
  "checkComplete s = (if isComplete s \<and> inner s = None then s\<lparr>closed := True\<rparr> else s)"

text \<open>What one event produces, and its three components.\<close>

type_synonym ('a, 'd) result =
  "'d engine \<times> 'd item list list \<times> (nat \<times> 'a pagination_scheme) list"

definition state_of :: "('a, 'd) result \<Rightarrow> 'd engine" where
  "state_of r = fst r"

definition emissions :: "('a, 'd) result \<Rightarrow> 'd item list list" where
  "emissions r = fst (snd r)"

definition fetches :: "('a, 'd) result \<Rightarrow> (nat \<times> 'a pagination_scheme) list" where
  "fetches r = snd (snd r)"

text \<open>
  One event. The result is the new state, the buffers emitted on the output, and the
  calls of \<open>loadMoreFn\<close> (each with its index).

  An error thrown in the callback of \<open>tap\<close> is the error of the output. A descriptor
  that passes \<open>filter\<close> makes \<open>switchMap\<close> drop its inner subscription and run its
  projection, which calls \<open>loadMoreFn(v)\<close> while it builds
  \<open>merge(of(data), loadMoreFn(v).pipe(map(...))).pipe(catchError(() => of([])))\<close>.
  If the call throws, the error leaves the projection, nothing has been subscribed and
  \<open>switchMap\<close> ends the output with that error. Otherwise \<open>switchMap\<close> subscribes,
  and \<open>of(data)\<close> emits the buffer at once. A notification of an inner observable that
  is not subscribed (any more) reaches nothing. A page \<open>res\<close> of the subscribed one goes
  through \<open>map\<close>; its error is replaced by \<open>of([])\<close>, which emits the empty array and
  completes.
\<close>

fun step ::
  "(nat \<Rightarrow> 'a pagination_scheme \<Rightarrow> call) \<Rightarrow> bool \<Rightarrow> ('a, 'd) event \<Rightarrow> 'd engine \<Rightarrow>
   ('a, 'd) result" where
  "step loadMoreFn usePadNil (Desc p) s =
     (if closed s \<or> isComplete s then (s, [], [])
      else
        (case tap_epoch usePadNil p s of
           None \<Rightarrow> (s\<lparr>inner := None, closed := True\<rparr>, [], [])
         | Some s1 \<Rightarrow>
             if admit p s1
             then
               (case loadMoreFn (index s1) p of
                  Throws \<Rightarrow>
                    (s1\<lparr>index := index s1 + 1, inner := None, closed := True\<rparr>,
                     [], [(index s1, p)])
                | Returns \<Rightarrow>
                    (s1\<lparr>index := index s1 + 1, inner := Some (index s1)\<rparr>,
                     [data s1], [(index s1, p)]))
             else (s1, [], [])))"
| "step loadMoreFn usePadNil (FetchNext i res) s =
     (if inner s = Some i
      then (let d = filter notNil (data s) @ res in (s\<lparr>data := d\<rparr>, [d], []))
      else (s, [], []))"
| "step loadMoreFn usePadNil (FetchError i) s =
     (if inner s = Some i
      then (checkComplete (s\<lparr>inner := None\<rparr>), [[]], [])
      else (s, [], []))"
| "step loadMoreFn usePadNil (FetchComplete i) s =
     (if inner s = Some i
      then (checkComplete (s\<lparr>inner := None\<rparr>), [], [])
      else (s, [], []))"
| "step loadMoreFn usePadNil SourceError s =
     (if closed s \<or> isComplete s then (s, [], [])
      else (s\<lparr>inner := None, closed := True\<rparr>, [], []))"
| "step loadMoreFn usePadNil SourceComplete s =
     (if closed s \<or> isComplete s then (s, [], [])
      else (checkComplete (s\<lparr>isComplete := True\<rparr>), [], []))"

text \<open>A run over a list of events, from a given state.\<close>

fun run ::
  "(nat \<Rightarrow> 'a pagination_scheme \<Rightarrow> call) \<Rightarrow> bool \<Rightarrow> ('a, 'd) event list \<Rightarrow> 'd engine \<Rightarrow>
   ('a, 'd) result" where
  "run loadMoreFn usePadNil [] s = (s, [], [])"
| "run loadMoreFn usePadNil (e # es) s =
     (let r1 = step loadMoreFn usePadNil e s;
          r2 = run loadMoreFn usePadNil es (state_of r1)
      in (state_of r2, emissions r1 @ emissions r2, fetches r1 @ fetches r2))"

text \<open>The operator on a fresh subscription.\<close>

definition switchLoadMore ::
  "(nat \<Rightarrow> 'a pagination_scheme \<Rightarrow> call) \<Rightarrow> bool \<Rightarrow> ('a, 'd) event list \<Rightarrow> ('a, 'd) result"
  where
  "switchLoadMore loadMoreFn usePadNil evs = run loadMoreFn usePadNil evs engine_init"

text \<open>
  The events that follow in one epoch after the page \<open>q\<close>: every descriptor has the
  size \<open>sz\<close> and a page above the one before it.
\<close>

fun later_pages :: "int \<Rightarrow> int \<Rightarrow> ('a, 'd) event list \<Rightarrow> bool" where
  "later_pages sz q [] = True"
| "later_pages sz q (Desc p # es) =
     (size_p p = sz \<and> q < page p \<and> later_pages sz (page p) es)"
| "later_pages sz q (e # es) = later_pages sz q es"

text \<open>
  The inner observable with index \<open>a\<close> has been started and is not subscribed
  any more.
\<close>

definition superseded :: "nat \<Rightarrow> 'd engine \<Rightarrow> bool" where
  "superseded a s = (a < index s \<and> inner s \<noteq> Some a)"

text \<open>
  The merge in the words of the spec: the items of a buffer that are not placeholders
  (neither \<open>undefined\<close> nor \<open>null\<close>), in their order.
\<close>

fun non_placeholder_items :: "'d item list \<Rightarrow> 'd item list" where
  "non_placeholder_items [] = []"
| "non_placeholder_items (Undefined # xs) = non_placeholder_items xs"
| "non_placeholder_items (Null # xs) = non_placeholder_items xs"
| "non_placeholder_items (Item v # xs) = Item v # non_placeholder_items xs"

section \<open>Facts about useScrolling\<close>

lemma track_Cons_proj:
  "fst (track sz sp (e # es) t) = fst (track sz sp es (fst (useScrolling_step sz sp e t)))"
  "snd (track sz sp (e # es) t) =
     snd (useScrolling_step sz sp e t) @ snd (track sz sp es (fst (useScrolling_step sz sp e t)))"
  by (simp_all add: Let_def)

lemma track_append:
  "fst (track sz sp (xs @ ys) t) = fst (track sz sp ys (fst (track sz sp xs t)))"
  "snd (track sz sp (xs @ ys) t) =
     snd (track sz sp xs t) @ snd (track sz sp ys (fst (track sz sp xs t)))"
  by (induction xs arbitrary: t) (simp_all add: Let_def)

lemma combined_fields:
  "has_scroll (fst (combined sz t)) = has_scroll t"
  "latest_reset (fst (combined sz t)) = latest_reset t"
  by (auto simp: combined_def split: option.splits)

lemma track_has_scroll:
  "has_scroll (fst (track sz sp evs t)) = (has_scroll t \<or> Scroll \<in> set evs)"
proof (induction evs arbitrary: t)
  case Nil
  then show ?case by simp
next
  case (Cons e es)
  show ?case
    using Cons.IH [of "fst (useScrolling_step sz sp e t)"]
    by (cases e) (auto simp: combined_fields Let_def)
qed

lemma track_latest_reset:
  "(latest_reset (fst (track sz sp evs t)) = None) =
     (latest_reset t = None \<and> (\<forall>prm. Reset prm \<notin> set evs))"
proof (induction evs arbitrary: t)
  case Nil
  then show ?case by simp
next
  case (Cons e es)
  show ?case
    using Cons.IH [of "fst (useScrolling_step sz sp e t)"]
    by (cases e) (auto simp: combined_fields Let_def)
qed

lemma upt_shift: "0 # map Suc [0..<n] = [0..<Suc n]"
  by (simp add: map_Suc_upt upt_conv_Cons del: upt_Suc)

text \<open>
  The counter over one epoch: after a reset, the descriptors carry \<open>startPage\<close> and
  its successive increments. Up to \<open>2^53\<close> these are \<open>startPage + i\<close>.
\<close>

lemma emitted_scrolls:
  "latest_reset t = Some prm \<Longrightarrow>
   emitted_from sz sp (replicate n Scroll) t =
     map (\<lambda>i. descriptor ((js_incr ^^ i) (page_var t)) sz prm) [0..<n]"
proof (induction n arbitrary: t)
  case 0
  then show ?case by (simp add: emitted_from_def)
next
  case (Suc n)
  let ?t1 = "t\<lparr>has_scroll := True, page_var := js_incr (page_var t)\<rparr>"
  have step: "useScrolling_step sz sp Scroll t = (?t1, [descriptor (page_var t) sz prm])"
    using Suc.prems by (simp add: combined_def)
  have ih: "emitted_from sz sp (replicate n Scroll) ?t1 =
     map (\<lambda>i. descriptor ((js_incr ^^ i) (page_var ?t1)) sz prm) [0..<n]"
    by (rule Suc.IH) (simp add: Suc.prems)
  have "emitted_from sz sp (replicate (Suc n) Scroll) t =
     descriptor (page_var t) sz prm # emitted_from sz sp (replicate n Scroll) ?t1"
    using step by (simp add: emitted_from_def Let_def)
  also have "\<dots> = map (\<lambda>i. descriptor ((js_incr ^^ i) (page_var t)) sz prm) (0 # map Suc [0..<n])"
    using ih by (simp add: o_def funpow_swap1)
  finally show ?case by (simp only: upt_shift)
qed

lemma emitted_epoch:
  "emitted_from sz sp (Reset prm # replicate n Scroll) t =
     map (\<lambda>i. descriptor ((js_incr ^^ i) sp) sz prm) [0..<(if has_scroll t then Suc n else n)]"
proof (cases "has_scroll t")
  case True
  let ?t1 = "t\<lparr>page_var := js_incr sp, latest_reset := Some prm\<rparr>"
  have step: "useScrolling_step sz sp (Reset prm) t = (?t1, [descriptor sp sz prm])"
    using True by (simp add: combined_def)
  have "emitted_from sz sp (Reset prm # replicate n Scroll) t =
     descriptor sp sz prm # emitted_from sz sp (replicate n Scroll) ?t1"
    using step by (simp add: emitted_from_def Let_def)
  also have "\<dots> = map (\<lambda>i. descriptor ((js_incr ^^ i) sp) sz prm) (0 # map Suc [0..<n])"
    by (simp add: emitted_scrolls [of ?t1 prm] o_def funpow_swap1)
  finally show ?thesis using True by (simp only: upt_shift if_True)
next
  case False
  let ?t1 = "t\<lparr>page_var := sp, latest_reset := Some prm\<rparr>"
  have step: "useScrolling_step sz sp (Reset prm) t = (?t1, [])"
    using False by (simp add: combined_def)
  have "emitted_from sz sp (Reset prm # replicate n Scroll) t =
     emitted_from sz sp (replicate n Scroll) ?t1"
    using step by (simp add: emitted_from_def Let_def)
  then show ?thesis using False by (simp add: emitted_scrolls [of ?t1 prm])
qed

lemma js_incr_sticks:
  "js_incr 9007199254740991 = 9007199254740992"
  "js_incr 9007199254740992 = 9007199254740992"
  by (simp_all add: js_incr_def)

lemma js_incr_exact:
  "- 9007199254740992 \<le> x \<Longrightarrow> x + int i \<le> 9007199254740992 \<Longrightarrow>
   (js_incr ^^ i) x = x + int i"
proof (induction i)
  case 0
  then show ?case by simp
next
  case (Suc i)
  then have ih: "(js_incr ^^ i) x = x + int i" by simp
  have "js_incr (x + int i) = x + int i + 1"
    using Suc.prems by (simp add: js_incr_def)
  then show ?case by (simp add: ih)
qed

lemma useScrolling_append:
  "useScrolling sz sp (pre @ evs) =
     useScrolling sz sp pre @ emitted_from sz sp evs (fst (track sz sp pre (tracker_init sp)))"
  by (simp add: useScrolling_def emitted_from_def track_append)

section \<open>The claims about useScrolling\<close>

text \<open>
  Claim C4. The code at \<open>size = 2\<close>, \<open>startPage = 1\<close>, a reset with the payload
  \<open>{ page: 7 }\<close> and two scrolls: the two descriptors of this epoch both carry the
  page 7, where the claim has the pages 1 and 2. The counter does go from 1 to 2
  (\<open>emitted_epoch\<close>), but the spread \<open>...params\<close> comes after \<open>page\<close> in the object
  literal and writes the payload's property over it.
\<close>

theorem payload_page_replaces_counter:
  "map (\<lambda>d. d ''page'')
     (useScrolling 2 1 [Reset [''page'' \<mapsto> Num 7], Scroll, Scroll :: nat input]) =
   [Some (Num 7), Some (Num 7)]"
  by (simp add: useScrolling_def emitted_from_def tracker_init_def combined_def descriptor_def
      js_incr_def Let_def)

text \<open>
  Claim C5. The code at \<open>size = 2\<close>, \<open>startPage = 1\<close>, a scroll and then a reset
  with the payload \<open>{ page: 7, size: 50, q: 0 }\<close>: the descriptor emitted has the page 7
  and the size 50 of the payload, not the page 1 and the size 2 of the tracker. The
  payload's properties overwrite \<open>page\<close> and \<open>size\<close>, where the documentation of
  \<open>useScrolling\<close> promises the current page and size.
\<close>

theorem payload_fields_override_tracker:
  "map (\<lambda>d. (d ''page'', d ''size'', d ''q''))
     (useScrolling 2 1
        [Scroll, Reset [''page'' \<mapsto> Num 7, ''size'' \<mapsto> Num 50, ''q'' \<mapsto> Val (0::nat)]]) =
   [(Some (Num 7), Some (Num 50), Some (Val 0))]"
  by (simp add: useScrolling_def emitted_from_def tracker_init_def combined_def descriptor_def
      js_incr_def Let_def)

text \<open>
  Claim C8, as amended. After the events \<open>pre\<close>, the event \<open>e\<close> makes
  \<open>useScrolling\<close> emit one more descriptor if both inputs have produced a value by
  then, \<open>e\<close> included (some reset and some scroll occur in \<open>pre @ [e]\<close>), and
  nothing otherwise.
\<close>

theorem emission_needs_both_inputs:
  "length (useScrolling sz sp (pre @ [e])) =
     length (useScrolling sz sp pre) +
     (if (\<exists>prm. Reset prm \<in> set (pre @ [e])) \<and> Scroll \<in> set (pre @ [e]) then 1 else 0)"
proof -
  let ?t = "fst (track sz sp pre (tracker_init sp))"
  have hs: "has_scroll ?t = (Scroll \<in> set pre)"
    by (simp add: track_has_scroll tracker_init_def)
  have lr: "(latest_reset ?t = None) = (\<forall>prm. Reset prm \<notin> set pre)"
    by (simp add: track_latest_reset tracker_init_def)
  have "length (emitted_from sz sp [e] ?t) =
     (if (\<exists>prm. Reset prm \<in> set (pre @ [e])) \<and> Scroll \<in> set (pre @ [e]) then 1 else 0)"
  proof (cases e)
    case (Reset prm)
    then show ?thesis using hs by (auto simp: emitted_from_def combined_def Let_def)
  next
    case Scroll
    then show ?thesis
      using lr by (auto simp: emitted_from_def combined_def Let_def split: option.splits)
  qed
  then show ?thesis by (simp only: useScrolling_append length_append)
qed

text \<open>A scroll after a reset emits; a first reset alone does not.\<close>

theorem emission_needs_both_inputs_witness:
  "length (useScrolling 2 1 ([Reset (Map.empty :: nat obj)] @ [Scroll])) =
     length (useScrolling 2 1 [Reset (Map.empty :: nat obj)]) + 1 \<and>
   length (useScrolling 2 1 ([] @ [Reset (Map.empty :: nat obj)])) =
     length (useScrolling 2 1 ([] :: nat input list)) + 0"
  using emission_needs_both_inputs [of 2 1 "[Reset (Map.empty :: nat obj)]" Scroll]
    emission_needs_both_inputs [of 2 1 "[]" "Reset (Map.empty :: nat obj)"]
  by simp

text \<open>
  One input has produced a value and fires, the other has not: nothing is emitted.
\<close>

theorem one_input_counterexample:
  "useScrolling 2 1 [Reset (Map.empty :: nat obj)] = [] \<and>
   useScrolling 2 1 [Scroll, Scroll :: nat input] = []"
  by (simp add: useScrolling_def emitted_from_def tracker_init_def combined_def js_incr_def
      Let_def)

section \<open>Facts about switchLoadMore\<close>

lemma js_rem_zero: "(js_rem a b = Some 0) = (b \<noteq> 0 \<and> b dvd a)"
proof (cases "b = 0")
  case True
  then show ?thesis by (simp add: js_rem_def)
next
  case False
  have "(sgn a * (\<bar>a\<bar> mod \<bar>b\<bar>) = 0) = (\<bar>a\<bar> mod \<bar>b\<bar> = 0)"
    by (cases "a = 0") (auto simp: sgn_if)
  also have "\<dots> = (b dvd a)"
    by (simp add: dvd_eq_mod_eq_0 [symmetric])
  finally show ?thesis using False by (simp add: js_rem_def)
qed

lemma admit_iff: "admit p s = (size_p p \<noteq> 0 \<and> size_p p dvd int (length (data s)))"
  by (auto simp: admit_def js_rem_zero)

lemma filter_notNil: "filter notNil xs = non_placeholder_items xs"
  by (induction xs rule: non_placeholder_items.induct) (simp_all add: notNil_def)

lemma tap_epoch_fields:
  assumes "tap_epoch pad p s = Some s1"
  shows "index s1 = index s" "inner s1 = inner s" "closed s1 = closed s"
    "isComplete s1 = isComplete s" "prevPage s1 = Some (page p)"
  using assms by (auto simp: tap_epoch_def split: if_splits option.splits)

lemma tap_epoch_None_iff:
  "(tap_epoch pad p s = None) =
     (page_le (page p) (prevPage s) \<and> pad \<and> 4294967295 < size_p p)"
  by (auto simp: tap_epoch_def array_from_def split: option.splits if_splits)

lemma tap_epoch_inner_update:
  "tap_epoch pad p (s\<lparr>inner := j\<rparr>) = map_option (\<lambda>s1. s1\<lparr>inner := j\<rparr>) (tap_epoch pad p s)"
  by (simp add: tap_epoch_def split: option.splits)

lemma result_proj:
  "state_of (s, em, fs) = s" "emissions (s, em, fs) = em" "fetches (s, em, fs) = fs"
  by (simp_all add: state_of_def emissions_def fetches_def)

lemma result_eqI:
  "state_of r = state_of r' \<Longrightarrow> emissions r = emissions r' \<Longrightarrow> fetches r = fetches r' \<Longrightarrow>
   r = r'"
  by (cases r; cases r') (simp add: state_of_def emissions_def fetches_def)

lemma run_Cons_proj:
  "state_of (run fn pad (e # es) s) = state_of (run fn pad es (state_of (step fn pad e s)))"
  "emissions (run fn pad (e # es) s) =
     emissions (step fn pad e s) @ emissions (run fn pad es (state_of (step fn pad e s)))"
  "fetches (run fn pad (e # es) s) =
     fetches (step fn pad e s) @ fetches (run fn pad es (state_of (step fn pad e s)))"
  by (simp_all add: Let_def result_proj)

lemma run_append_proj:
  "state_of (run fn pad (xs @ ys) s) = state_of (run fn pad ys (state_of (run fn pad xs s)))"
  "emissions (run fn pad (xs @ ys) s) =
     emissions (run fn pad xs s) @ emissions (run fn pad ys (state_of (run fn pad xs s)))"
  "fetches (run fn pad (xs @ ys) s) =
     fetches (run fn pad xs s) @ fetches (run fn pad ys (state_of (run fn pad xs s)))"
  by (induction xs arbitrary: s) (simp_all add: run_Cons_proj result_proj del: run.simps(2))

lemma run_skip:
  assumes "step fn pad e (state_of (run fn pad xs s)) = (state_of (run fn pad xs s), [], [])"
  shows "run fn pad (xs @ e # ys) s = run fn pad (xs @ ys) s"
  by (rule result_eqI) (simp_all add: run_append_proj run_Cons_proj assms result_proj
      del: run.simps(2))

lemma step_unsubscribed:
  assumes "inner s \<noteq> Some i" and "e \<in> {FetchNext i r, FetchError i, FetchComplete i}"
  shows "step fn pad e s = (s, [], [])"
  using assms by auto

lemma step_Desc_ignored:
  "closed s \<or> isComplete s \<Longrightarrow> step fn pad (Desc p) s = (s, [], [])"
  by simp

lemma step_Desc_range_error:
  "\<not> closed s \<Longrightarrow> \<not> isComplete s \<Longrightarrow> tap_epoch pad p s = None \<Longrightarrow>
   step fn pad (Desc p) s = (s\<lparr>inner := None, closed := True\<rparr>, [], [])"
  by simp

lemma step_Desc_rejected:
  "\<not> closed s \<Longrightarrow> \<not> isComplete s \<Longrightarrow> tap_epoch pad p s = Some s1 \<Longrightarrow> \<not> admit p s1 \<Longrightarrow>
   step fn pad (Desc p) s = (s1, [], [])"
  by simp

lemma step_Desc_thrown:
  "\<not> closed s \<Longrightarrow> \<not> isComplete s \<Longrightarrow> tap_epoch pad p s = Some s1 \<Longrightarrow> admit p s1 \<Longrightarrow>
   fn (index s1) p = Throws \<Longrightarrow>
   step fn pad (Desc p) s =
     (s1\<lparr>index := index s1 + 1, inner := None, closed := True\<rparr>, [], [(index s1, p)])"
  by simp

lemma step_Desc_subscribed:
  "\<not> closed s \<Longrightarrow> \<not> isComplete s \<Longrightarrow> tap_epoch pad p s = Some s1 \<Longrightarrow> admit p s1 \<Longrightarrow>
   fn (index s1) p = Returns \<Longrightarrow>
   step fn pad (Desc p) s =
     (s1\<lparr>index := index s1 + 1, inner := Some (index s1)\<rparr>, [data s1], [(index s1, p)])"
  by simp

declare step.simps(1) [simp del]

lemma step_Desc_cases:
  obtains (ignored) "closed s \<or> isComplete s" "step fn pad (Desc p) s = (s, [], [])"
  | (range_error) "\<not> closed s" "\<not> isComplete s" "tap_epoch pad p s = None"
      "step fn pad (Desc p) s = (s\<lparr>inner := None, closed := True\<rparr>, [], [])"
  | (rejected) s1 where "\<not> closed s" "\<not> isComplete s" "tap_epoch pad p s = Some s1"
      "\<not> admit p s1" "step fn pad (Desc p) s = (s1, [], [])"
  | (thrown) s1 where "\<not> closed s" "\<not> isComplete s" "tap_epoch pad p s = Some s1"
      "admit p s1" "fn (index s1) p = Throws"
      "step fn pad (Desc p) s =
         (s1\<lparr>index := index s1 + 1, inner := None, closed := True\<rparr>, [], [(index s1, p)])"
  | (subscribed) s1 where "\<not> closed s" "\<not> isComplete s" "tap_epoch pad p s = Some s1"
      "admit p s1" "fn (index s1) p = Returns"
      "step fn pad (Desc p) s =
         (s1\<lparr>index := index s1 + 1, inner := Some (index s1)\<rparr>, [data s1], [(index s1, p)])"
proof (cases "closed s \<or> isComplete s")
  case True
  then show ?thesis by (rule ignored) (rule step_Desc_ignored [OF True])
next
  case False
  then have live: "\<not> closed s" "\<not> isComplete s" by simp_all
  show ?thesis
  proof (cases "tap_epoch pad p s")
    case None
    show ?thesis
      by (rule range_error [OF live None]) (rule step_Desc_range_error [OF live None])
  next
    case (Some s1)
    show ?thesis
    proof (cases "admit p s1")
      case False
      show ?thesis
        by (rule rejected [OF live Some False]) (rule step_Desc_rejected [OF live Some False])
    next
      case True
      show ?thesis
      proof (cases "fn (index s1) p")
        case Throws
        show ?thesis
          by (rule thrown [OF live Some True Throws])
             (rule step_Desc_thrown [where fn = fn, OF live Some True Throws])
      next
        case Returns
        show ?thesis
          by (rule subscribed [OF live Some True Returns])
             (rule step_Desc_subscribed [where fn = fn, OF live Some True Returns])
      qed
    qed
  qed
qed

lemma step_Desc_index:
  "index (state_of (step fn pad (Desc p) s)) = index s \<and>
   inner (state_of (step fn pad (Desc p) s)) \<in> {inner s, None}
   \<or> index (state_of (step fn pad (Desc p) s)) = index s + 1 \<and>
     inner (state_of (step fn pad (Desc p) s)) \<in> {Some (index s), None}"
proof (cases rule: step_Desc_cases [of s fn pad p])
  case ignored
  then show ?thesis by (simp add: result_proj)
next
  case range_error
  then show ?thesis by (simp add: result_proj)
next
  case (rejected s1)
  then show ?thesis
    using tap_epoch_fields [OF rejected(3)] by (simp add: result_proj)
next
  case (thrown s1)
  then show ?thesis
    using tap_epoch_fields [OF thrown(3)] by (simp add: result_proj)
next
  case (subscribed s1)
  then show ?thesis
    using tap_epoch_fields [OF subscribed(3)] by (simp add: result_proj)
qed

lemma superseded_step: "superseded a s \<Longrightarrow> superseded a (state_of (step fn pad e s))"
proof (cases e)
  case (Desc p)
  assume "superseded a s"
  then show ?thesis
    unfolding Desc using step_Desc_index [of fn pad p s]
    by (auto simp: superseded_def)
qed (auto simp: superseded_def Let_def checkComplete_def result_proj)

lemma superseded_run: "superseded a s \<Longrightarrow> superseded a (state_of (run fn pad evs s))"
proof (induction evs arbitrary: s)
  case Nil
  then show ?case by (simp add: result_proj)
next
  case (Cons e es)
  from Cons.prems have "superseded a (state_of (step fn pad e s))" by (rule superseded_step)
  then have "superseded a (state_of (run fn pad es (state_of (step fn pad e s))))"
    by (rule Cons.IH)
  then show ?case by (simp only: run_Cons_proj)
qed

lemma index_step: "index s \<le> index (state_of (step fn pad e s))"
proof (cases e)
  case (Desc p)
  show ?thesis
    unfolding Desc using step_Desc_index [of fn pad p s] by auto
qed (auto simp: Let_def checkComplete_def result_proj)

lemma fetches_step_Desc:
  assumes "(a, A) \<in> set (fetches (step fn pad (Desc p) s))"
  shows "a < index (state_of (step fn pad (Desc p) s))"
proof (cases rule: step_Desc_cases [of s fn pad p])
  case ignored
  with assms show ?thesis by (simp add: result_proj)
next
  case range_error
  with assms show ?thesis by (simp add: result_proj)
next
  case (rejected s1)
  with assms show ?thesis by (simp add: result_proj)
next
  case (thrown s1)
  with assms show ?thesis by (simp add: result_proj)
next
  case (subscribed s1)
  with assms show ?thesis by (simp add: result_proj)
qed

lemma fetches_step:
  "(a, A) \<in> set (fetches (step fn pad e s)) \<Longrightarrow> a < index (state_of (step fn pad e s))"
  by (cases e) (auto simp: Let_def result_proj fetches_step_Desc split: if_splits)

lemma index_run: "index s \<le> index (state_of (run fn pad evs s))"
proof (induction evs arbitrary: s)
  case Nil
  then show ?case by (simp add: result_proj)
next
  case (Cons e es)
  have "index s \<le> index (state_of (step fn pad e s))" by (rule index_step)
  also have "\<dots> \<le> index (state_of (run fn pad es (state_of (step fn pad e s))))"
    by (rule Cons.IH)
  finally show ?case by (simp only: run_Cons_proj)
qed

lemma fetches_run:
  "(a, A) \<in> set (fetches (run fn pad evs s)) \<Longrightarrow> a < index (state_of (run fn pad evs s))"
proof (induction evs arbitrary: s)
  case Nil
  then show ?case by (simp add: result_proj)
next
  case (Cons e es)
  let ?s1 = "state_of (step fn pad e s)"
  from Cons.prems
  have "(a, A) \<in> set (fetches (step fn pad e s)) \<or>
        (a, A) \<in> set (fetches (run fn pad es ?s1))"
    by (simp add: run_Cons_proj del: run.simps(2))
  then show ?case
  proof
    assume "(a, A) \<in> set (fetches (step fn pad e s))"
    then have "a < index ?s1" by (rule fetches_step)
    also have "index ?s1 \<le> index (state_of (run fn pad es ?s1))" by (rule index_run)
    finally show ?thesis by (simp only: run_Cons_proj)
  next
    assume "(a, A) \<in> set (fetches (run fn pad es ?s1))"
    then have "a < index (state_of (run fn pad es ?s1))" by (rule Cons.IH)
    then show ?thesis by (simp only: run_Cons_proj)
  qed
qed

lemmas eval_defs =
  step.simps(1) switchLoadMore_def engine_init_def tap_epoch_def array_from_def page_le_def admit_def
  js_rem_def Let_def checkComplete_def notNil_def state_of_def emissions_def fetches_def
  eval_nat_numeral

lemma later_pages_mono: "later_pages sz q' es \<Longrightarrow> q \<le> q' \<Longrightarrow> later_pages sz q es"
  by (induction sz q' es arbitrary: q rule: later_pages.induct) auto

lemma stuck_step:
  assumes "inner s = None" and "\<not> sz dvd int (length (data s))" and "prevPage s = Some q"
    and "later_pages sz q (e # es)"
  shows "emissions (step fn pad e s) = [] \<and> fetches (step fn pad e s) = []
       \<and> data (state_of (step fn pad e s)) = data s
       \<and> inner (state_of (step fn pad e s)) = None
       \<and> (\<exists>q'. prevPage (state_of (step fn pad e s)) = Some q' \<and> later_pages sz q' es)"
proof (cases e)
  case (Desc p)
  from assms(4) Desc have p: "size_p p = sz" "q < page p" "later_pages sz (page p) es"
    by simp_all
  have old: "later_pages sz q es"
    by (rule later_pages_mono [OF p(3)]) (use p(2) in simp)
  show ?thesis
  proof (cases "closed s \<or> isComplete s")
    case True
    then have "step fn pad e s = (s, [], [])"
      unfolding Desc by (rule step_Desc_ignored)
    then show ?thesis using assms(1,3) old by (simp add: result_proj)
  next
    case False
    then have live: "\<not> closed s" "\<not> isComplete s" by simp_all
    let ?s1 = "s\<lparr>prevPage := Some (page p)\<rparr>"
    have tap: "tap_epoch pad p s = Some ?s1"
      using p(2) assms(3) by (simp add: tap_epoch_def page_le_def)
    have rej: "\<not> admit p ?s1"
      using assms(2) p(1) by (simp add: admit_iff)
    have "step fn pad e s = (?s1, [], [])"
      unfolding Desc by (rule step_Desc_rejected [OF live tap rej])
    then show ?thesis using assms(1) p(3) by (simp add: result_proj)
  qed
next
  case (FetchNext i r)
  then show ?thesis using assms by (simp add: result_proj)
next
  case (FetchError i)
  then show ?thesis using assms by (simp add: result_proj)
next
  case (FetchComplete i)
  then show ?thesis using assms by (simp add: result_proj)
next
  case SourceError
  then show ?thesis using assms by (simp add: result_proj)
next
  case SourceComplete
  then show ?thesis using assms by (simp add: result_proj checkComplete_def)
qed

lemma size_zero_step:
  assumes "inner s = None" and "defaultItems s = []" and "data s = []"
    and "\<forall>p. e = Desc p \<longrightarrow> size_p p = 0"
  shows "emissions (step fn pad e s) = [] \<and> fetches (step fn pad e s) = []
       \<and> inner (state_of (step fn pad e s)) = None
       \<and> defaultItems (state_of (step fn pad e s)) = []
       \<and> data (state_of (step fn pad e s)) = []"
proof (cases e)
  case (Desc p)
  with assms(4) have z: "size_p p = 0" by simp
  show ?thesis
  proof (cases "closed s \<or> isComplete s")
    case True
    then have "step fn pad e s = (s, [], [])"
      unfolding Desc by (rule step_Desc_ignored)
    then show ?thesis using assms(1-3) by (simp add: result_proj)
  next
    case False
    then have live: "\<not> closed s" "\<not> isComplete s" by simp_all
    let ?s1 = "if page_le (page p) (prevPage s)
            then s\<lparr>defaultItems := [], data := [], prevPage := Some (page p)\<rparr>
            else s\<lparr>prevPage := Some (page p)\<rparr>"
    have tap: "tap_epoch pad p s = Some ?s1"
      using z by (simp add: tap_epoch_def)
    have rej: "\<not> admit p ?s1"
      using z by (simp add: admit_def)
    have "step fn pad e s = (?s1, [], [])"
      unfolding Desc by (rule step_Desc_rejected [OF live tap rej])
    then show ?thesis using assms(1-3) by (simp add: result_proj)
  qed
next
  case (FetchNext i r)
  then show ?thesis using assms by (simp add: result_proj)
next
  case (FetchError i)
  then show ?thesis using assms by (simp add: result_proj)
next
  case (FetchComplete i)
  then show ?thesis using assms by (simp add: result_proj)
next
  case SourceError
  then show ?thesis using assms by (simp add: result_proj)
next
  case SourceComplete
  then show ?thesis using assms by (simp add: result_proj checkComplete_def)
qed

lemma size_zero_run:
  assumes "inner s = None" and "defaultItems s = []" and "data s = []"
    and "\<forall>p. Desc p \<in> set evs \<longrightarrow> size_p p = 0"
  shows "emissions (run fn pad evs s) = [] \<and> fetches (run fn pad evs s) = []
       \<and> defaultItems (state_of (run fn pad evs s)) = []
       \<and> data (state_of (run fn pad evs s)) = []"
  using assms
proof (induction evs arbitrary: s)
  case Nil
  then show ?case by (simp add: result_proj)
next
  case (Cons e es)
  let ?s1 = "state_of (step fn pad e s)"
  have e: "\<forall>p. e = Desc p \<longrightarrow> size_p p = 0" using Cons.prems(4) by simp
  note st = size_zero_step [OF Cons.prems(1) Cons.prems(2) Cons.prems(3) e, of fn pad]
  have "emissions (run fn pad es ?s1) = [] \<and> fetches (run fn pad es ?s1) = []
       \<and> defaultItems (state_of (run fn pad es ?s1)) = []
       \<and> data (state_of (run fn pad es ?s1)) = []"
    using st Cons.prems(4) by (intro Cons.IH) simp_all
  then show ?case using st by (simp add: run_Cons_proj del: run.simps(2))
qed

text \<open>
  An error notification of the subscribed fetch, on a live stream: the empty array is
  emitted, the buffer stays and the output stays open; the state is the one after the
  completion of the fetch, and a descriptor that arrives next emits and fetches what it
  would have without the failure. This is the path that \<open>catchError\<close> covers.
\<close>

lemma observable_error_swallowed:
  assumes "inner s = Some i" and "\<not> isComplete s" and "\<not> closed s"
  shows "step fn pad (FetchError i) s = (s\<lparr>inner := None\<rparr>, [[]], [])
       \<and> data (state_of (step fn pad (FetchError i) s)) = data s
       \<and> \<not> closed (state_of (step fn pad (FetchError i) s))
       \<and> emissions (step fn pad (Desc p) (state_of (step fn pad (FetchError i) s))) =
           emissions (step fn pad (Desc p) s)
       \<and> fetches (step fn pad (Desc p) (state_of (step fn pad (FetchError i) s))) =
           fetches (step fn pad (Desc p) s)
       \<and> state_of (step fn pad (FetchError i) s) = state_of (step fn pad (FetchComplete i) s)"
proof -
  have st: "step fn pad (FetchError i) s = (s\<lparr>inner := None\<rparr>, [[]], [])"
    using assms by (simp add: checkComplete_def)
  have same: "emissions (step fn pad (Desc p) (s\<lparr>inner := None\<rparr>)) =
        emissions (step fn pad (Desc p) s)
      \<and> fetches (step fn pad (Desc p) (s\<lparr>inner := None\<rparr>)) = fetches (step fn pad (Desc p) s)"
    using assms(2,3)
    by (cases "tap_epoch pad p s")
       (auto simp: step.simps(1) tap_epoch_inner_update admit_def result_proj
          split: call.splits)
  show ?thesis
    using assms same by (simp add: st result_proj checkComplete_def)
qed

text \<open>
  A descriptor that passes the filter on a live stream, when the call of \<open>loadMoreFn\<close>
  returns: the current buffer is emitted in the same step and the fetch is subscribed.
  The subscription then stays over every event that neither calls \<open>loadMoreFn\<close> again,
  nor closes the output, nor is the error or the completion of this fetch; and when the
  subscribed fetch delivers a page or fails, there is exactly one more emission.
\<close>

lemma admitted_emits_snapshot:
  assumes "\<not> closed s" and "\<not> isComplete s" and "tap_epoch pad p s = Some s1"
    and "admit p s1" and "fn (index s) p = Returns"
  shows "emissions (step fn pad (Desc p) s) = [data s1]
       \<and> fetches (step fn pad (Desc p) s) = [(index s, p)]
       \<and> inner (state_of (step fn pad (Desc p) s)) = Some (index s)"
  using assms tap_epoch_fields(1) [OF assms(3)] by (simp add: step.simps(1) result_proj)

lemma subscription_persists:
  assumes "inner s = Some i" and "fetches (step fn pad e s) = []"
    and "\<not> closed (state_of (step fn pad e s))" and "e \<noteq> FetchError i" and "e \<noteq> FetchComplete i"
  shows "inner (state_of (step fn pad e s)) = Some i"
proof (cases e)
  case (Desc p)
  show ?thesis
  proof (cases rule: step_Desc_cases [of s fn pad p])
    case ignored
    then show ?thesis using assms(1) by (simp add: Desc result_proj)
  next
    case range_error
    then show ?thesis using assms(3) by (simp add: Desc result_proj)
  next
    case (rejected s1)
    then show ?thesis
      using assms(1) tap_epoch_fields(2) [OF rejected(3)] by (simp add: Desc result_proj)
  next
    case (thrown s1)
    then show ?thesis using assms(2) by (simp add: Desc result_proj)
  next
    case (subscribed s1)
    then show ?thesis using assms(2) by (simp add: Desc result_proj)
  qed
next
  case (FetchNext j r)
  then show ?thesis using assms(1) by (simp add: Let_def result_proj)
next
  case (FetchError j)
  then show ?thesis using assms(1,4) by (simp add: result_proj)
next
  case (FetchComplete j)
  then show ?thesis using assms(1,5) by (simp add: result_proj)
next
  case SourceError
  then show ?thesis using assms(1,3) by (simp add: result_proj split: if_splits)
next
  case SourceComplete
  then show ?thesis using assms(1) by (simp add: result_proj checkComplete_def)
qed

lemma settled_emits_once:
  assumes "inner s = Some i"
  shows "emissions (step fn pad (FetchNext i res) s) = [filter notNil (data s) @ res]
       \<and> emissions (step fn pad (FetchError i) s) = [[]]"
  using assms by (simp add: Let_def result_proj)

section \<open>The claims about switchLoadMore\<close>

text \<open>
  Claim C1, as amended. A descriptor makes \<open>switchLoadMore\<close> call \<open>loadMoreFn\<close>
  if and only if the stream is live, its \<open>size\<close> is not zero, the first \<open>tap\<close> has
  not thrown and the length of the buffer after it is a multiple of \<open>size\<close>; for a
  size that is not negative, a call then means \<open>size > 0\<close>. The gate reads the size and
  the length of the buffer only: whether an inner observable is subscribed (a fetch is in
  flight) makes no difference to it.
\<close>

theorem admission_gate:
  "fetches (step fn pad (Desc p) s) =
     (if \<not> closed s \<and> \<not> isComplete s \<and> size_p p \<noteq> 0 \<and>
         (\<exists>s1. tap_epoch pad p s = Some s1 \<and> size_p p dvd int (length (data s1)))
      then [(index s, p)] else [])
   \<and> fetches (step fn pad (Desc p) (s\<lparr>inner := j\<rparr>)) = fetches (step fn pad (Desc p) s)
   \<and> (fetches (step fn pad (Desc p) s) \<noteq> [] \<and> 0 \<le> size_p p \<longrightarrow> 0 < size_p p)"
proof -
  have gate: "fetches (step fn pad (Desc p) t) =
     (if \<not> closed t \<and> \<not> isComplete t \<and> size_p p \<noteq> 0 \<and>
         (\<exists>s1. tap_epoch pad p t = Some s1 \<and> size_p p dvd int (length (data s1)))
      then [(index t, p)] else [])" for t :: "'b engine"
  proof (cases rule: step_Desc_cases [of t fn pad p])
    case ignored
    then show ?thesis by (auto simp: result_proj)
  next
    case range_error
    then show ?thesis by (simp add: result_proj)
  next
    case (rejected s1)
    then show ?thesis by (simp add: result_proj admit_iff)
  next
    case (thrown s1)
    then show ?thesis
      using tap_epoch_fields(1) [OF thrown(3)] by (simp add: result_proj admit_iff)
  next
    case (subscribed s1)
    then show ?thesis
      using tap_epoch_fields(1) [OF subscribed(3)] by (simp add: result_proj admit_iff)
  qed
  have "fetches (step fn pad (Desc p) (s\<lparr>inner := j\<rparr>)) = fetches (step fn pad (Desc p) s)"
    by (cases "tap_epoch pad p s") (simp_all add: gate tap_epoch_inner_update)
  then show ?thesis by (simp add: gate [of s])
qed

text \<open>The first page is fetched; after a short page the next one is not.\<close>

theorem admission_gate_witness:
  "fetches (step (\<lambda>n p. Returns) True (Desc \<lparr>page = 1, size_p = 2\<rparr>)
      (engine_init :: nat engine)) = [(0, \<lparr>page = 1, size_p = 2\<rparr>)]
   \<and> fetches (step (\<lambda>n p. Returns) True (Desc \<lparr>page = 2, size_p = 2\<rparr>)
       ((engine_init :: nat engine)\<lparr>data := [Item 1], prevPage := Some 1\<rparr>)) = []"
  using admission_gate [where fn = "\<lambda>n p. Returns" and pad = True
      and p = "\<lparr>page = 1, size_p = 2\<rparr>" and s = "engine_init :: nat engine" and j = None]
    admission_gate [where fn = "\<lambda>n p. Returns" and pad = True
      and p = "\<lparr>page = 2, size_p = 2\<rparr>"
      and s = "(engine_init :: nat engine)\<lparr>data := [Item 1], prevPage := Some 1\<rparr>"
      and j = None]
  by (simp add: eval_defs)

text \<open>
  With padding and \<open>size = 2\<close>, the descriptor of page 1 leaves two placeholders in
  the buffer and its fetch, of index 0, in flight. The descriptor of page 2 passes the gate
  all the same (the length 2 is a multiple of 2) and a second fetch is started. So does a
  third descriptor with the size \<open>-2\<close>, which is not positive.
\<close>

theorem gate_open_in_flight_counterexample:
  "data (state_of (switchLoadMore (\<lambda>n p. Returns) True
      [Desc \<lparr>page = 1, size_p = 2\<rparr> :: (unit, nat) event])) = [Undefined, Undefined]
   \<and> inner (state_of (switchLoadMore (\<lambda>n p. Returns) True
      [Desc \<lparr>page = 1, size_p = 2\<rparr> :: (unit, nat) event])) = Some 0
   \<and> fetches (switchLoadMore (\<lambda>n p. Returns) True
      [Desc \<lparr>page = 1, size_p = 2\<rparr>, Desc \<lparr>page = 2, size_p = 2\<rparr>,
       Desc \<lparr>page = 3, size_p = - 2\<rparr> :: (unit, nat) event]) =
     [(0, \<lparr>page = 1, size_p = 2\<rparr>), (1, \<lparr>page = 2, size_p = 2\<rparr>),
      (2, \<lparr>page = 3, size_p = - 2\<rparr>)]"
  by (simp add: eval_defs)

text \<open>
  Claim C2. Let the descriptor \<open>A\<close> have been admitted during the events \<open>pre\<close>,
  with the fetch of index \<open>a\<close>, and let the descriptor \<open>B\<close> be admitted next.
  Then \<open>switchMap\<close> is subscribed to the fetch of \<open>B\<close> (to nothing, should the call
  of \<open>loadMoreFn\<close> for \<open>B\<close> throw) and not to that of \<open>A\<close>, and a notification of
  the fetch of \<open>A\<close> (a page, an error, completion) that arrives at any later moment
  changes nothing: the state, the buffer in it, the emissions and the calls are those of
  the run without it.
\<close>

theorem latest_wins:
  assumes A: "(a, A) \<in> set (fetches (switchLoadMore fn pad pre))"
    and B: "fetches (step fn pad (Desc B) (state_of (switchLoadMore fn pad pre))) \<noteq> []"
    and ev: "ev \<in> {FetchNext a r, FetchError a, FetchComplete a}"
  shows "inner (state_of (switchLoadMore fn pad (pre @ [Desc B]))) =
           (case fn (index (state_of (switchLoadMore fn pad pre))) B of
              Returns \<Rightarrow> Some (index (state_of (switchLoadMore fn pad pre)))
            | Throws \<Rightarrow> None)
       \<and> inner (state_of (switchLoadMore fn pad (pre @ [Desc B]))) \<noteq> Some a
       \<and> switchLoadMore fn pad (pre @ Desc B # evs @ ev # evs') =
           switchLoadMore fn pad (pre @ Desc B # evs @ evs')"
proof -
  let ?s = "state_of (switchLoadMore fn pad pre)"
  let ?s1 = "state_of (switchLoadMore fn pad (pre @ [Desc B]))"
  have a: "a < index ?s"
    using A fetches_run [of a A fn pad pre engine_init] by (simp add: switchLoadMore_def)
  have s1: "?s1 = state_of (step fn pad (Desc B) ?s)"
    by (simp add: switchLoadMore_def run_append_proj run_Cons_proj result_proj
        del: run.simps(2))
  have both: "inner ?s1 = (case fn (index ?s) B of Returns \<Rightarrow> Some (index ?s) | Throws \<Rightarrow> None)
      \<and> index ?s1 = index ?s + 1"
  proof (cases rule: step_Desc_cases [of ?s fn pad B])
    case ignored
    then show ?thesis using B by (simp add: result_proj)
  next
    case range_error
    then show ?thesis using B by (simp add: result_proj)
  next
    case (rejected t)
    then show ?thesis using B by (simp add: result_proj)
  next
    case (thrown t)
    then show ?thesis
      using tap_epoch_fields(1) [OF thrown(3)] by (simp add: s1 result_proj)
  next
    case (subscribed t)
    then show ?thesis
      using tap_epoch_fields(1) [OF subscribed(3)] by (simp add: s1 result_proj)
  qed
  then have in1: "inner ?s1 =
      (case fn (index ?s) B of Returns \<Rightarrow> Some (index ?s) | Throws \<Rightarrow> None)"
    and ix1: "index ?s1 = index ?s + 1"
    by simp_all
  have sup: "superseded a ?s1"
    using a in1 ix1 by (simp add: superseded_def split: call.splits)
  let ?s2 = "state_of (switchLoadMore fn pad (pre @ Desc B # evs))"
  have "?s2 = state_of (run fn pad evs ?s1)"
    by (simp add: switchLoadMore_def run_append_proj run_Cons_proj result_proj
        del: run.simps(2))
  then have "superseded a ?s2"
    using superseded_run [OF sup, of fn pad evs] by simp
  then have "inner ?s2 \<noteq> Some a" by (simp add: superseded_def)
  then have "step fn pad ev ?s2 = (?s2, [], [])"
    using ev by (rule step_unsubscribed)
  then have "run fn pad ((pre @ Desc B # evs) @ ev # evs') engine_init =
             run fn pad ((pre @ Desc B # evs) @ evs') engine_init"
    unfolding switchLoadMore_def by (rule run_skip)
  then show ?thesis
    using in1 sup by (simp add: switchLoadMore_def superseded_def)
qed

text \<open>
  Page 1 is superseded by page 2; its late result \<open>[5]\<close> is dropped and the buffer
  ends as the result of page 2.
\<close>

theorem latest_wins_witness:
  "(0, \<lparr>page = 1, size_p = 2\<rparr>) \<in>
     set (fetches (switchLoadMore (\<lambda>n p. Returns) True
       [Desc \<lparr>page = 1, size_p = 2\<rparr> :: (unit, nat) event]))
   \<and> fetches (step (\<lambda>n p. Returns) True (Desc \<lparr>page = 2, size_p = 2\<rparr>)
        (state_of (switchLoadMore (\<lambda>n p. Returns) True
          [Desc \<lparr>page = 1, size_p = 2\<rparr> :: (unit, nat) event]))) \<noteq> []
   \<and> switchLoadMore (\<lambda>n p. Returns) True
        [Desc \<lparr>page = 1, size_p = 2\<rparr>, Desc \<lparr>page = 2, size_p = 2\<rparr>,
         FetchNext 0 [Item 5], FetchNext 1 [Item 7, Item (8::nat)]] =
      switchLoadMore (\<lambda>n p. Returns) True
        [Desc \<lparr>page = 1, size_p = 2\<rparr>, Desc \<lparr>page = 2, size_p = 2\<rparr>,
         FetchNext 1 [Item 7, Item 8]]
   \<and> data (state_of (switchLoadMore (\<lambda>n p. Returns) True
        [Desc \<lparr>page = 1, size_p = 2\<rparr>, Desc \<lparr>page = 2, size_p = 2\<rparr>,
         FetchNext 1 [Item 7, Item (8::nat)] :: (unit, nat) event])) = [Item 7, Item 8]"
proof -
  let ?fn = "\<lambda>(n::nat) (p::pagination). Returns"
  let ?p1 = "\<lparr>page = 1, size_p = 2\<rparr>"
  let ?p2 = "\<lparr>page = 2, size_p = 2\<rparr>"
  let ?pre = "[Desc ?p1 :: (unit, nat) event]"
  have h1: "(0, ?p1) \<in> set (fetches (switchLoadMore ?fn True ?pre))"
    by (simp add: eval_defs)
  have h2: "fetches (step ?fn True (Desc ?p2) (state_of (switchLoadMore ?fn True ?pre))) \<noteq> []"
    by (simp add: eval_defs)
  have h3: "FetchNext 0 [Item 5] \<in>
      {FetchNext 0 [Item 5], FetchError 0, FetchComplete 0 :: (unit, nat) event}"
    by simp
  have d: "data (state_of (switchLoadMore ?fn True
        [Desc ?p1, Desc ?p2, FetchNext 1 [Item 7, Item (8::nat)] :: (unit, nat) event])) =
        [Item 7, Item 8]"
    by (simp add: eval_defs)
  from latest_wins [OF h1 h2 h3, of "[]" "[FetchNext 1 [Item 7, Item 8]]"] h1 h2 d
  show ?thesis by simp
qed

text \<open>
  Claim C3. The code with padding, \<open>size = 2\<close> and a \<open>loadMoreFn\<close> that throws when
  it is called for page 2: page 1 is fetched and delivers \<open>[4, 5]\<close>; the descriptor of
  page 2 passes the filter, \<open>loadMoreFn\<close> is called and throws inside the projection of
  \<open>switchMap\<close>, outside \<open>catchError\<close>. No empty array is emitted for the failed
  page (not even the snapshot), the output is closed by the error, and the descriptor of
  page 3 is not processed any more: \<open>loadMoreFn\<close> has been called twice only.
\<close>

theorem thrown_call_ends_output:
  "emissions (switchLoadMore (\<lambda>n p. if page p = 2 then Throws else Returns) True
      [Desc \<lparr>page = 1, size_p = 2\<rparr>, FetchNext 0 [Item 4, Item 5], FetchComplete 0,
       Desc \<lparr>page = 2, size_p = 2\<rparr>, Desc \<lparr>page = 3, size_p = 2\<rparr>
         :: (unit, nat) event]) =
     [[Undefined, Undefined], [Item 4, Item 5]]
   \<and> closed (state_of (switchLoadMore (\<lambda>n p. if page p = 2 then Throws else Returns) True
      [Desc \<lparr>page = 1, size_p = 2\<rparr>, FetchNext 0 [Item 4, Item 5], FetchComplete 0,
       Desc \<lparr>page = 2, size_p = 2\<rparr>, Desc \<lparr>page = 3, size_p = 2\<rparr>
         :: (unit, nat) event]))
   \<and> fetches (switchLoadMore (\<lambda>n p. if page p = 2 then Throws else Returns) True
      [Desc \<lparr>page = 1, size_p = 2\<rparr>, FetchNext 0 [Item 4, Item 5], FetchComplete 0,
       Desc \<lparr>page = 2, size_p = 2\<rparr>, Desc \<lparr>page = 3, size_p = 2\<rparr>
         :: (unit, nat) event]) =
     [(0, \<lparr>page = 1, size_p = 2\<rparr>), (1, \<lparr>page = 2, size_p = 2\<rparr>)]"
  by (simp add: eval_defs)

text \<open>
  Claim C6. When the subscribed fetch, of index \<open>i\<close>, delivers the page \<open>res\<close>,
  the buffer becomes its items that are not placeholders (neither \<open>undefined\<close> nor
  \<open>null\<close>), all of them and in their order, followed by \<open>res\<close>, and this new buffer
  is emitted; nothing else changes.
\<close>

theorem success_merge:
  assumes "inner s = Some i"
  shows "step fn pad (FetchNext i res) s =
           (s\<lparr>data := non_placeholder_items (data s) @ res\<rparr>,
            [non_placeholder_items (data s) @ res], [])"
  using assms by (simp add: Let_def filter_notNil)

text \<open>
  The second page is appended to the items of the first; and of a buffer with
  placeholders among its items, the items are kept and the placeholders dropped.
\<close>

theorem success_merge_witness:
  "inner (state_of (switchLoadMore (\<lambda>n p. Returns) True
      [Desc \<lparr>page = 1, size_p = 2\<rparr>, FetchNext 0 [Item 4, Item 5], FetchComplete 0,
       Desc \<lparr>page = 2, size_p = 2\<rparr> :: (unit, nat) event])) = Some 1
   \<and> step (\<lambda>n p. Returns) True (FetchNext 1 [Item 6, Item 7] :: (unit, nat) event)
       (state_of (switchLoadMore (\<lambda>n p. Returns) True
          [Desc \<lparr>page = 1, size_p = 2\<rparr>, FetchNext 0 [Item 4, Item 5], FetchComplete 0,
           Desc \<lparr>page = 2, size_p = 2\<rparr> :: (unit, nat) event])) =
     (state_of (switchLoadMore (\<lambda>n p. Returns) True
          [Desc \<lparr>page = 1, size_p = 2\<rparr>, FetchNext 0 [Item 4, Item 5], FetchComplete 0,
           Desc \<lparr>page = 2, size_p = 2\<rparr> :: (unit, nat) event])
        \<lparr>data := [Item 4, Item 5, Item 6, Item 7]\<rparr>,
      [[Item 4, Item 5, Item 6, Item 7]], [])
   \<and> emissions (step (\<lambda>n p. Returns) True (FetchNext 0 [Item 6] :: (unit, nat) event)
       (state_of (switchLoadMore (\<lambda>n p. Returns) True
          [Desc \<lparr>page = 1, size_p = 2\<rparr>,
           FetchNext 0 [Item 4, Undefined, Null, Item 5] :: (unit, nat) event]))) =
     [[Item 4, Item 5, Item 6]]"
proof -
  let ?fn = "\<lambda>(n::nat) (p::pagination). Returns"
  let ?s = "state_of (switchLoadMore ?fn True
      [Desc \<lparr>page = 1, size_p = 2\<rparr>, FetchNext 0 [Item 4, Item 5], FetchComplete 0,
       Desc \<lparr>page = 2, size_p = 2\<rparr> :: (unit, nat) event])"
  let ?t = "state_of (switchLoadMore ?fn True
      [Desc \<lparr>page = 1, size_p = 2\<rparr>,
       FetchNext 0 [Item 4, Undefined, Null, Item 5] :: (unit, nat) event])"
  have h1: "inner ?s = Some 1" and d1: "data ?s = [Item 4, Item 5]"
    by (simp_all add: eval_defs)
  have h2: "inner ?t = Some 0" and d2: "data ?t = [Item 4, Undefined, Null, Item 5]"
    by (simp_all add: eval_defs)
  note m1 = success_merge [OF h1, of ?fn True "[Item 6, Item 7]"]
  note m2 = success_merge [OF h2, of ?fn True "[Item 6]"]
  have e2: "emissions (step ?fn True (FetchNext 0 [Item 6] :: (unit, nat) event) ?t) =
      [non_placeholder_items (data ?t) @ [Item 6]]"
    by (simp only: m2 result_proj)
  from h1 m1 e2 show ?thesis by (simp only: d1 d2 non_placeholder_items.simps append.simps simp_thms)
qed

text \<open>
  Claim C7. The code with padding, \<open>size = 2\<close> and a \<open>loadMoreFn\<close> that throws: the
  first descriptor passes the filter, since \<open>loadMoreFn\<close> is called for it, but nothing
  is emitted, neither the snapshot of the buffer nor anything later: the call throws in
  the projection of \<open>switchMap\<close> before \<open>of(data)\<close> is subscribed, and the output ends
  with the error.
\<close>

theorem admitted_call_throws_no_emission:
  "fetches (step (\<lambda>n p. Throws) True (Desc \<lparr>page = 1, size_p = 2\<rparr>)
      (engine_init :: nat engine)) = [(0, \<lparr>page = 1, size_p = 2\<rparr>)]
   \<and> emissions (step (\<lambda>n p. Throws) True (Desc \<lparr>page = 1, size_p = 2\<rparr>)
      (engine_init :: nat engine)) = []
   \<and> emissions (switchLoadMore (\<lambda>n p. Throws) True
      [Desc \<lparr>page = 1, size_p = 2\<rparr>, FetchNext 0 [Item 4, Item 5], FetchError 0
         :: (unit, nat) event]) = []
   \<and> closed (state_of (step (\<lambda>n p. Throws) True (Desc \<lparr>page = 1, size_p = 2\<rparr>)
      (engine_init :: nat engine)))"
  by (simp add: eval_defs)

text \<open>
  Claim C9. Let \<open>size > 0\<close>, let the length of the buffer not be a multiple of
  \<open>size\<close>, with no fetch subscribed (the fetch has completed) and \<open>q\<close> the last
  page seen. Then over any events in which every descriptor has this size and a page above
  the one before it, nothing is emitted, \<open>loadMoreFn\<close> is never called and the buffer
  stays as it is.
\<close>

theorem short_page_blocks:
  assumes "0 < sz" and "\<not> sz dvd int (length (data s))" and "inner s = None"
    and "prevPage s = Some q" and "later_pages sz q evs"
  shows "emissions (run fn pad evs s) = [] \<and> fetches (run fn pad evs s) = []
       \<and> data (state_of (run fn pad evs s)) = data s"
  using assms(2-)
proof (induction evs arbitrary: s q)
  case Nil
  then show ?case by (simp add: result_proj)
next
  case (Cons e es)
  let ?s1 = "state_of (step fn pad e s)"
  from stuck_step [OF Cons.prems(2) Cons.prems(1) Cons.prems(3) Cons.prems(4), of fn pad]
  obtain q' where st: "emissions (step fn pad e s) = []" "fetches (step fn pad e s) = []"
      "data ?s1 = data s" "inner ?s1 = None" "prevPage ?s1 = Some q'" "later_pages sz q' es"
    by blast
  have "emissions (run fn pad es ?s1) = [] \<and> fetches (run fn pad es ?s1) = []
       \<and> data (state_of (run fn pad es ?s1)) = data ?s1"
    using st Cons.prems(1) by (intro Cons.IH [of ?s1 q']) simp_all
  then show ?case by (simp add: run_Cons_proj st del: run.simps(2))
qed

text \<open>After the short page \<open>[4]\<close> of page 1, the pages 2 and 3 are rejected.\<close>

theorem short_page_blocks_witness:
  "data (state_of (switchLoadMore (\<lambda>n p. Returns) True
      [Desc \<lparr>page = 1, size_p = 2\<rparr>, FetchNext 0 [Item 4], FetchComplete 0
        :: (unit, nat) event])) = [Item 4]
   \<and> later_pages 2 1
       [Desc \<lparr>page = 2, size_p = 2\<rparr>, Desc \<lparr>page = 3, size_p = 2\<rparr> :: (unit, nat) event]
   \<and> emissions (run (\<lambda>n p. Returns) True
       [Desc \<lparr>page = 2, size_p = 2\<rparr>, Desc \<lparr>page = 3, size_p = 2\<rparr>]
       (state_of (switchLoadMore (\<lambda>n p. Returns) True
          [Desc \<lparr>page = 1, size_p = 2\<rparr>, FetchNext 0 [Item 4], FetchComplete 0
            :: (unit, nat) event]))) = []
   \<and> fetches (run (\<lambda>n p. Returns) True
       [Desc \<lparr>page = 2, size_p = 2\<rparr>, Desc \<lparr>page = 3, size_p = 2\<rparr>]
       (state_of (switchLoadMore (\<lambda>n p. Returns) True
          [Desc \<lparr>page = 1, size_p = 2\<rparr>, FetchNext 0 [Item 4], FetchComplete 0
            :: (unit, nat) event]))) = []"
proof -
  let ?fn = "\<lambda>(n::nat) (p::pagination). Returns"
  let ?s = "state_of (switchLoadMore ?fn True
      [Desc \<lparr>page = 1, size_p = 2\<rparr>, FetchNext 0 [Item 4], FetchComplete 0
        :: (unit, nat) event])"
  let ?evs = "[Desc \<lparr>page = 2, size_p = 2\<rparr>, Desc \<lparr>page = 3, size_p = 2\<rparr> :: (unit, nat) event]"
  have d: "data ?s = [Item 4]" and h3: "inner ?s = None" and h4: "prevPage ?s = Some 1"
    by (simp_all add: eval_defs)
  have h1: "(0::int) < 2" by simp
  have h2: "\<not> (2::int) dvd int (length (data ?s))" by (simp add: d)
  have h5: "later_pages 2 1 ?evs" by simp
  from short_page_blocks [OF h1 h2 h3 h4 h5, of ?fn True] d h5
  show ?thesis by simp
qed

text \<open>
  Claim C10. If every descriptor among the events has \<open>size = 0\<close>, then on a fresh
  subscription nothing is emitted and \<open>loadMoreFn\<close> is never called. Each such
  descriptor fails the filter in any state, and where it starts an epoch the placeholder
  template is empty, also with padding on; the template is empty at the end.
\<close>

theorem size_zero_silent:
  assumes "\<forall>p. Desc p \<in> set evs \<longrightarrow> size_p p = 0"
  shows "emissions (switchLoadMore fn pad evs) = [] \<and> fetches (switchLoadMore fn pad evs) = []
       \<and> defaultItems (state_of (switchLoadMore fn pad evs)) = []
       \<and> (\<forall>p s. Desc p \<in> set evs \<longrightarrow>
            \<not> admit p s \<and>
            (page_le (page p) (prevPage s) \<longrightarrow>
               map_option defaultItems (tap_epoch True p s) = Some []))"
proof -
  have "emissions (run fn pad evs engine_init) = [] \<and> fetches (run fn pad evs engine_init) = []
       \<and> defaultItems (state_of (run fn pad evs engine_init)) = []
       \<and> data (state_of (run fn pad evs engine_init)) = []"
    using assms by (intro size_zero_run) (simp_all add: engine_init_def)
  moreover have "\<not> admit p s \<and>
      (page_le (page p) (prevPage s) \<longrightarrow>
         map_option defaultItems (tap_epoch True p s) = Some [])"
    if "Desc p \<in> set evs" for p and s :: "'c engine"
    using assms that by (simp add: admit_def tap_epoch_def)
  ultimately show ?thesis by (simp add: switchLoadMore_def)
qed

text \<open>Two descriptors of size 0 and a stray page: no emission, no call.\<close>

theorem size_zero_silent_witness:
  "emissions (switchLoadMore (\<lambda>n p. Returns) True
       [Desc \<lparr>page = 1, size_p = 0\<rparr>, Desc \<lparr>page = 2, size_p = 0\<rparr>,
        FetchNext 0 [Item 4] :: (unit, nat) event]) = []
   \<and> fetches (switchLoadMore (\<lambda>n p. Returns) True
       [Desc \<lparr>page = 1, size_p = 0\<rparr>, Desc \<lparr>page = 2, size_p = 0\<rparr>,
        FetchNext 0 [Item 4] :: (unit, nat) event]) = []"
proof -
  let ?evs = "[Desc \<lparr>page = 1, size_p = 0\<rparr>, Desc \<lparr>page = 2, size_p = 0\<rparr>,
       FetchNext 0 [Item 4] :: (unit, nat) event]"
  have h: "\<forall>p. Desc p \<in> set ?evs \<longrightarrow> size_p p = 0" by auto
  from size_zero_silent [OF h, of "\<lambda>n p. Returns" True]
  show ?thesis by blast
qed

end
